theory Spec2Isabelle
  imports Main
begin

section \<open>The world outside \<open>jsonlDir.ts\<close>\<close>

text \<open>
  \<open>src/lib/jsonlDir.ts\<close> builds \<open>add\<close>, \<open>findOne\<close>, \<open>find\<close>, \<open>update\<close>, \<open>delete\<close>
  and \<open>count\<close> on three collaborators: the JSONL file accessor of \<open>./jsonl\<close>
  (\<open>read\<close>, \<open>append\<close>, \<open>appendText\<close>, \<open>count\<close>), the scoped temporary file of
  \<open>./temporaryFileTask\<close>, and \<open>rename\<close> of \<open>node:fs\<close>. They act on a file system,
  which is the state threaded through every operation below.

  A file is the list of the records that its lines parse to; a record is an opaque value
  of type \<open>'r\<close>. Every call of an I/O primitive is written to
  \<open>trace\<close>, and consumes one entry of \<open>faults\<close>: \<open>True\<close> makes that call fail with
  \<open>IOFailure\<close>. An exhausted list means that no further call fails.
\<close>

type_synonym path = string

datatype error = InvalidInput | IOFailure | TypeError

datatype 'r event =
    EvRead path
  | EvAppend path "'r list"
  | EvRename path path
  | EvCount path

record 'r world =
  files :: "path \<rightharpoonup> 'r list"
  faults :: "bool list"
  trace :: "'r event list"

text \<open>The parameters of one entity store: \<open>jsonlDir(dirPath).file(entityName)\<close>, the path
  that \<open>temporaryFileTask\<close> hands to its task, and the sizes of the batches in which
  \<open>read\<close> delivers a file (when the sizes run out, the rest of the file is one batch).\<close>

record env =
  dirPath :: path
  entityName :: string
  tempPath :: path
  batching :: "nat list"

definition filePath :: "env \<Rightarrow> path" where
  "filePath c = dirPath c @ ''/'' @ entityName c @ ''.jsonl''"

definition content :: "'r world \<Rightarrow> path \<Rightarrow> 'r list" where
  "content w p = (case files w p of None \<Rightarrow> [] | Some xs \<Rightarrow> xs)"

definition tick :: "'r event \<Rightarrow> 'r world \<Rightarrow> bool \<times> 'r world" where
  "tick e w =
     (case faults w of
        [] \<Rightarrow> (False, w\<lparr>trace := trace w @ [e]\<rparr>)
      | b # bs \<Rightarrow> (b, w\<lparr>faults := bs, trace := trace w @ [e]\<rparr>))"

subsection \<open>The JSONL file accessor\<close>

text \<open>Modelled from the spec: \<open>./jsonl\<close> (\<open>createJsonlFile\<close>) is not among the sources.
  Section 4.1: \<open>read(visitor)\<close> decodes the file into batches of records and calls the
  visitor on each batch in order; a visitor that returns true stops the scan; a file that
  does not exist yields zero batches. The visitors of durable \<open>update\<close> and \<open>delete\<close>
  are \<open>async\<close>, so \<open>read\<close> awaits the visitor's result, and an error of the visitor ends
  the scan (section 6: I/O errors propagate).\<close>

fun batches :: "nat list \<Rightarrow> 'r list \<Rightarrow> 'r list list" where
  "batches ns [] = []"
| "batches [] xs = [xs]"
| "batches (n # ns) xs = take n xs # batches ns (drop n xs)"

type_synonym ('r, 's) visitor =
  "'r list \<Rightarrow> 's \<Rightarrow> 'r world \<Rightarrow> (error + bool \<times> 's) \<times> 'r world"

fun scan :: "('r, 's) visitor \<Rightarrow> path \<Rightarrow> 'r list list \<Rightarrow> 's \<Rightarrow> 'r world
    \<Rightarrow> (error + 's) \<times> 'r world" where
  "scan v p [] s w = (Inr s, w)"
| "scan v p (b # bs) s w =
     (case tick (EvRead p) w of
        (True, w1) \<Rightarrow> (Inl IOFailure, w1)
      | (False, w1) \<Rightarrow>
          (case v b s w1 of
             (Inl e, w2) \<Rightarrow> (Inl e, w2)
           | (Inr (stop, s'), w2) \<Rightarrow> if stop then (Inr s', w2) else scan v p bs s' w2))"

definition read :: "env \<Rightarrow> path \<Rightarrow> ('r, 's) visitor \<Rightarrow> 's \<Rightarrow> 'r world
    \<Rightarrow> (error + 's) \<times> 'r world" where
  "read c p v s w = scan v p (batches (batching c) (content w p)) s w"

text \<open>A synchronous visitor touches no file.\<close>

definition sync :: "('r list \<Rightarrow> 's \<Rightarrow> bool \<times> 's) \<Rightarrow> ('r, 's) visitor" where
  "sync f b s w = (Inr (f b s), w)"

text \<open>The global \<open>JSON\<close> of JavaScript, as far as \<open>add\<close> and \<open>./jsonl\<close> use it:
  \<open>JSON.stringify\<close> of a record gives a line, or throws a \<open>TypeError\<close> (\<open>None\<close>);
  \<open>JSON.parse\<close> gives the record that a line decodes to. Nothing says that parsing the
  line of a record gives that record back.\<close>

record 'r json =
  stringify :: "'r \<Rightarrow> string option"
  parse :: "string \<Rightarrow> 'r"

text \<open>Modelled from the spec: \<open>append\<close> and \<open>appendText\<close> of \<open>./jsonl\<close>. Section 4.1:
  they append to the end of the file, keep what is there, and create a file that does not
  exist. \<open>append\<close> (\<open>append_records\<close> here) takes records; \<open>appendText\<close> takes lines
  that are serialised already, and the file grows by the records they parse to.\<close>

definition append_records :: "path \<Rightarrow> 'r list \<Rightarrow> 'r world \<Rightarrow> (error + unit) \<times> 'r world" where
  "append_records p xs w =
     (case tick (EvAppend p xs) w of
        (True, w1) \<Rightarrow> (Inl IOFailure, w1)
      | (False, w1) \<Rightarrow> (Inr (), w1\<lparr>files := (files w1)(p \<mapsto> content w1 p @ xs)\<rparr>))"

definition appendText :: "'r json \<Rightarrow> path \<Rightarrow> string list \<Rightarrow> 'r world
    \<Rightarrow> (error + unit) \<times> 'r world" where
  "appendText j p ls w = append_records p (map (parse j) ls) w"

text \<open>Modelled from the spec: \<open>count\<close> of \<open>./jsonl\<close>. Section 4.1: the number of records
  in the file, as a scan to completion would count them.\<close>

definition jsonl_count :: "path \<Rightarrow> 'r world \<Rightarrow> (error + nat) \<times> 'r world" where
  "jsonl_count p w =
     (case tick (EvCount p) w of
        (True, w1) \<Rightarrow> (Inl IOFailure, w1)
      | (False, w1) \<Rightarrow> (Inr (length (content w1 p)), w1))"

subsection \<open>The temporary file and the rename\<close>

text \<open>Modelled from the spec: \<open>./temporaryFileTask\<close> is not among the sources. Sections 1,
  4.2 and 6: it creates a temporary file, runs the task on its path, and deletes the
  temporary file when the task has completed or thrown; the task's result or error is
  its own.\<close>

definition createTemp :: "env \<Rightarrow> 'r world \<Rightarrow> 'r world" where
  "createTemp c w = w\<lparr>files := (files w)(tempPath c \<mapsto> [])\<rparr>"

definition removeTemp :: "env \<Rightarrow> 'r world \<Rightarrow> 'r world" where
  "removeTemp c w = w\<lparr>files := (files w)(tempPath c := None)\<rparr>"

definition temporaryFileTask ::
  "env \<Rightarrow> (path \<Rightarrow> 'r world \<Rightarrow> (error + 'a) \<times> 'r world) \<Rightarrow> 'r world
    \<Rightarrow> (error + 'a) \<times> 'r world" where
  "temporaryFileTask c task w =
     (case task (tempPath c) (createTemp c w) of (r, w1) \<Rightarrow> (r, removeTemp c w1))"

text \<open>\<open>promises.rename\<close> of \<open>node:fs\<close>: the source path must exist; its content replaces
  the destination's in one step and the source path is gone.\<close>

definition rename :: "path \<Rightarrow> path \<Rightarrow> 'r world \<Rightarrow> (error + unit) \<times> 'r world" where
  "rename src dst w =
     (case tick (EvRename src dst) w of
        (True, w1) \<Rightarrow> (Inl IOFailure, w1)
      | (False, w1) \<Rightarrow>
          (case files w1 src of
             None \<Rightarrow> (Inl IOFailure, w1)
           | Some xs \<Rightarrow> (Inr (), w1\<lparr>files := ((files w1)(src := None))(dst \<mapsto> xs)\<rparr>)))"

section \<open>The operations of \<open>jsonlDir.ts\<close>\<close>

subsection \<open>add\<close>

text \<open>What a JavaScript caller can pass as \<open>data\<close>. The elements of an array are not
  inspected by the code; an object is any non-null, non-array value whose \<open>typeof\<close> is
  \<open>"object"\<close>.\<close>

datatype 'r jsvalue =
    JsUndefined
  | JsNull
  | JsBoolean bool
  | JsNumber int
  | JsString string
  | JsArray "'r list"
  | JsObject 'r

fun typeof :: "'r jsvalue \<Rightarrow> string" where
  "typeof JsUndefined = ''undefined''"
| "typeof JsNull = ''object''"
| "typeof (JsBoolean b) = ''boolean''"
| "typeof (JsNumber n) = ''number''"
| "typeof (JsString s) = ''string''"
| "typeof (JsArray xs) = ''object''"
| "typeof (JsObject r) = ''object''"

fun isArray :: "'r jsvalue \<Rightarrow> bool" where
  "isArray (JsArray xs) = True"
| "isArray v = False"

definition isSingleJson :: "'r jsvalue \<Rightarrow> bool" where
  "isSingleJson v = (typeof v = ''object'' \<and> v \<noteq> JsNull \<and> \<not> isArray v)"

text \<open>\<open>itemsToAdd.map(jsonObject => JSON.stringify(jsonObject))\<close>: the first record that
  cannot be serialised throws.\<close>

fun stringify_all :: "'r json \<Rightarrow> 'r list \<Rightarrow> error + string list" where
  "stringify_all j [] = Inr []"
| "stringify_all j (jsonObject # rest) =
     (case stringify j jsonObject of
        None \<Rightarrow> Inl TypeError
      | Some line \<Rightarrow>
          (case stringify_all j rest of
             Inl e \<Rightarrow> Inl e
           | Inr lines \<Rightarrow> Inr (line # lines)))"

definition add_items :: "'r json \<Rightarrow> env \<Rightarrow> 'r list \<Rightarrow> bool \<Rightarrow> 'r world
    \<Rightarrow> (error + 'r list) \<times> 'r world" where
  "add_items j c itemsToAdd mutateDb w =
     (if mutateDb then
        (case stringify_all j itemsToAdd of
           Inl e \<Rightarrow> (Inl e, w)
         | Inr lines \<Rightarrow>
             (case appendText j (filePath c) lines w of
                (Inl e, w1) \<Rightarrow> (Inl e, w1)
              | (Inr u, w1) \<Rightarrow> (Inr itemsToAdd, w1)))
      else (Inr itemsToAdd, w))"

definition add :: "'r json \<Rightarrow> env \<Rightarrow> 'r jsvalue \<Rightarrow> bool \<Rightarrow> 'r world
    \<Rightarrow> (error + 'r list) \<times> 'r world" where
  "add j c data mutateDb w =
     (if isArray data then
        (case data of
           JsArray xs \<Rightarrow> if length xs = 0 then (Inr [], w) else add_items j c xs mutateDb w
         | _ \<Rightarrow> (Inl InvalidInput, w))
      else if isSingleJson data then
        (case data of
           JsObject r \<Rightarrow> add_items j c [r] mutateDb w
         | _ \<Rightarrow> (Inl InvalidInput, w))
      else (Inl InvalidInput, w))"

subsection \<open>findOne and find\<close>

text \<open>\<open>find\<close> is \<open>find_op\<close> here: the list library has a \<open>find\<close> of its own.\<close>

text \<open>The variables \<open>found\<close> and \<open>canEnd\<close> that the visitor of \<open>findOne\<close> closes over,
  and \<open>calls\<close>, the records \<open>matchFn\<close> has been called on, in the order of the calls.\<close>

record 'r findOne_state =
  found :: "'r option"
  canEnd :: bool
  calls :: "'r list"

fun findOne_visit :: "('r \<Rightarrow> bool) \<Rightarrow> 'r list \<Rightarrow> 'r findOne_state \<Rightarrow> bool \<times> 'r findOne_state" where
  "findOne_visit matchFn [] s = (canEnd s, s)"
| "findOne_visit matchFn (jsonObject # rest) s =
     (if matchFn jsonObject
      then (True, s\<lparr>found := Some jsonObject, canEnd := True, calls := calls s @ [jsonObject]\<rparr>)
      else findOne_visit matchFn rest (s\<lparr>calls := calls s @ [jsonObject]\<rparr>))"

definition findOne_scan :: "env \<Rightarrow> ('r \<Rightarrow> bool) \<Rightarrow> 'r world
    \<Rightarrow> (error + 'r findOne_state) \<times> 'r world" where
  "findOne_scan c matchFn w =
     read c (filePath c) (sync (findOne_visit matchFn))
       \<lparr>found = None, canEnd = False, calls = []\<rparr> w"

definition findOne :: "env \<Rightarrow> ('r \<Rightarrow> bool) \<Rightarrow> 'r world \<Rightarrow> (error + 'r option) \<times> 'r world" where
  "findOne c matchFn w =
     (case findOne_scan c matchFn w of
        (Inl e, w1) \<Rightarrow> (Inl e, w1)
      | (Inr s, w1) \<Rightarrow> (Inr (found s), w1))"

fun find_visit :: "('r \<Rightarrow> bool) \<Rightarrow> 'r list \<Rightarrow> 'r list \<Rightarrow> bool \<times> 'r list" where
  "find_visit matchFn [] fnd = (False, fnd)"
| "find_visit matchFn (jsonObject # rest) fnd =
     (if matchFn jsonObject then find_visit matchFn rest (fnd @ [jsonObject])
      else find_visit matchFn rest fnd)"

definition find_op :: "env \<Rightarrow> ('r \<Rightarrow> bool) \<Rightarrow> 'r world \<Rightarrow> (error + 'r list) \<times> 'r world" where
  "find_op c matchFn w = read c (filePath c) (sync (find_visit matchFn)) [] w"

subsection \<open>update\<close>

text \<open>\<open>batch.map\<close> of the durable visitor: the processed batch, and \<open>updated\<close> with the
  transformed records pushed.\<close>

fun update_map :: "('r \<Rightarrow> bool) \<Rightarrow> ('r \<Rightarrow> 'r) \<Rightarrow> 'r list \<Rightarrow> 'r list \<Rightarrow> 'r list \<times> 'r list" where
  "update_map matchFn updateFn [] updated = ([], updated)"
| "update_map matchFn updateFn (jsonObject # rest) updated =
     (if matchFn jsonObject then
        (case update_map matchFn updateFn rest (updated @ [updateFn jsonObject]) of
           (processed, updated') \<Rightarrow> (updateFn jsonObject # processed, updated'))
      else
        (case update_map matchFn updateFn rest updated of
           (processed, updated') \<Rightarrow> (jsonObject # processed, updated')))"

definition update_visit :: "path \<Rightarrow> ('r \<Rightarrow> bool) \<Rightarrow> ('r \<Rightarrow> 'r) \<Rightarrow> ('r, 'r list) visitor" where
  "update_visit tmp matchFn updateFn batch updated w =
     (case update_map matchFn updateFn batch updated of
        (processedBatch, updated') \<Rightarrow>
          (case append_records tmp processedBatch w of
             (Inl e, w1) \<Rightarrow> (Inl e, w1)
           | (Inr u, w1) \<Rightarrow> (Inr (False, updated'), w1)))"

text \<open>The rewrite phase: the scan of the original file into the temporary file.\<close>

definition update_rewrite :: "env \<Rightarrow> ('r \<Rightarrow> bool) \<Rightarrow> ('r \<Rightarrow> 'r) \<Rightarrow> path \<Rightarrow> 'r world
    \<Rightarrow> (error + 'r list) \<times> 'r world" where
  "update_rewrite c matchFn updateFn tmp w =
     read c (filePath c) (update_visit tmp matchFn updateFn) [] w"

definition update_task :: "env \<Rightarrow> ('r \<Rightarrow> bool) \<Rightarrow> ('r \<Rightarrow> 'r) \<Rightarrow> path \<Rightarrow> 'r world
    \<Rightarrow> (error + 'r list) \<times> 'r world" where
  "update_task c matchFn updateFn tmp w =
     (case update_rewrite c matchFn updateFn tmp w of
        (Inl e, w1) \<Rightarrow> (Inl e, w1)
      | (Inr updated, w1) \<Rightarrow>
          (case rename tmp (filePath c) w1 of
             (Inl e, w2) \<Rightarrow> (Inl e, w2)
           | (Inr u, w2) \<Rightarrow> (Inr updated, w2)))"

fun update_collect :: "('r \<Rightarrow> bool) \<Rightarrow> ('r \<Rightarrow> 'r) \<Rightarrow> 'r list \<Rightarrow> 'r list \<Rightarrow> bool \<times> 'r list" where
  "update_collect matchFn updateFn [] updated = (False, updated)"
| "update_collect matchFn updateFn (jsonObject # rest) updated =
     (if matchFn jsonObject
      then update_collect matchFn updateFn rest (updated @ [updateFn jsonObject])
      else update_collect matchFn updateFn rest updated)"

definition update :: "env \<Rightarrow> ('r \<Rightarrow> bool) \<Rightarrow> ('r \<Rightarrow> 'r) \<Rightarrow> bool \<Rightarrow> 'r world
    \<Rightarrow> (error + 'r list) \<times> 'r world" where
  "update c matchFn updateFn mutateDb w =
     (if mutateDb then temporaryFileTask c (update_task c matchFn updateFn) w
      else read c (filePath c) (sync (update_collect matchFn updateFn)) [] w)"

subsection \<open>delete\<close>

text \<open>\<open>batch.filter\<close> of the durable visitor: the kept batch, and \<open>kept\<close> with the kept
  records pushed.\<close>

fun delete_filter :: "('r \<Rightarrow> bool) \<Rightarrow> 'r list \<Rightarrow> 'r list \<Rightarrow> 'r list \<times> 'r list" where
  "delete_filter matchFn [] kept = ([], kept)"
| "delete_filter matchFn (jsonObject # rest) kept =
     (if \<not> matchFn jsonObject then
        (case delete_filter matchFn rest (kept @ [jsonObject]) of
           (keptBatch, kept') \<Rightarrow> (jsonObject # keptBatch, kept'))
      else delete_filter matchFn rest kept)"

definition delete_visit :: "path \<Rightarrow> ('r \<Rightarrow> bool) \<Rightarrow> ('r, 'r list) visitor" where
  "delete_visit tmp matchFn batch kept w =
     (case delete_filter matchFn batch kept of
        (keptBatch, kept') \<Rightarrow>
          if length keptBatch > 0 then
            (case append_records tmp keptBatch w of
               (Inl e, w1) \<Rightarrow> (Inl e, w1)
             | (Inr u, w1) \<Rightarrow> (Inr (False, kept'), w1))
          else (Inr (False, kept'), w))"

definition delete_rewrite :: "env \<Rightarrow> ('r \<Rightarrow> bool) \<Rightarrow> path \<Rightarrow> 'r world
    \<Rightarrow> (error + 'r list) \<times> 'r world" where
  "delete_rewrite c matchFn tmp w = read c (filePath c) (delete_visit tmp matchFn) [] w"

definition delete_task :: "env \<Rightarrow> ('r \<Rightarrow> bool) \<Rightarrow> path \<Rightarrow> 'r world
    \<Rightarrow> (error + 'r list) \<times> 'r world" where
  "delete_task c matchFn tmp w =
     (case delete_rewrite c matchFn tmp w of
        (Inl e, w1) \<Rightarrow> (Inl e, w1)
      | (Inr kept, w1) \<Rightarrow>
          (case rename tmp (filePath c) w1 of
             (Inl e, w2) \<Rightarrow> (Inl e, w2)
           | (Inr u, w2) \<Rightarrow> (Inr kept, w2)))"

fun delete_collect :: "('r \<Rightarrow> bool) \<Rightarrow> 'r list \<Rightarrow> 'r list \<Rightarrow> bool \<times> 'r list" where
  "delete_collect matchFn [] kept = (False, kept)"
| "delete_collect matchFn (jsonObject # rest) kept =
     (if \<not> matchFn jsonObject then delete_collect matchFn rest (kept @ [jsonObject])
      else delete_collect matchFn rest kept)"

definition delete :: "env \<Rightarrow> ('r \<Rightarrow> bool) \<Rightarrow> bool \<Rightarrow> 'r world \<Rightarrow> (error + 'r list) \<times> 'r world" where
  "delete c matchFn mutateDb w =
     (if mutateDb then temporaryFileTask c (delete_task c matchFn) w
      else read c (filePath c) (sync (delete_collect matchFn)) [] w)"

subsection \<open>count\<close>

definition count :: "env \<Rightarrow> 'r world \<Rightarrow> (error + nat) \<times> 'r world" where
  "count c w = jsonl_count (filePath c) w"

section \<open>Auxiliary notions for the statements\<close>

text \<open>The variant of durable \<open>delete\<close> that section 4.2 of the specification compares the
  code with: it appends every processed batch to the temporary file, also a batch of
  which no record is kept.\<close>

definition delete_visit_always :: "path \<Rightarrow> ('r \<Rightarrow> bool) \<Rightarrow> ('r, 'r list) visitor" where
  "delete_visit_always tmp matchFn batch kept w =
     (case delete_filter matchFn batch kept of
        (keptBatch, kept') \<Rightarrow>
          (case append_records tmp keptBatch w of
             (Inl e, w1) \<Rightarrow> (Inl e, w1)
           | (Inr u, w1) \<Rightarrow> (Inr (False, kept'), w1)))"

definition delete_task_always :: "env \<Rightarrow> ('r \<Rightarrow> bool) \<Rightarrow> path \<Rightarrow> 'r world
    \<Rightarrow> (error + 'r list) \<times> 'r world" where
  "delete_task_always c matchFn tmp w =
     (case read c (filePath c) (delete_visit_always tmp matchFn) [] w of
        (Inl e, w1) \<Rightarrow> (Inl e, w1)
      | (Inr kept, w1) \<Rightarrow>
          (case rename tmp (filePath c) w1 of
             (Inl e, w2) \<Rightarrow> (Inl e, w2)
           | (Inr u, w2) \<Rightarrow> (Inr kept, w2)))"

definition delete_always :: "env \<Rightarrow> ('r \<Rightarrow> bool) \<Rightarrow> 'r world \<Rightarrow> (error + 'r list) \<times> 'r world" where
  "delete_always c matchFn w = temporaryFileTask c (delete_task_always c matchFn) w"

text \<open>The I/O calls an operation has issued: what it added to the trace.\<close>

definition issued :: "'r world \<Rightarrow> 'r world \<Rightarrow> 'r event list" where
  "issued w w' = drop (length (trace w)) (trace w')"


fun is_append_to :: "path \<Rightarrow> 'r event \<Rightarrow> bool" where
  "is_append_to p (EvAppend q xs) = (q = p)"
| "is_append_to p e = False"

text \<open>The records \<open>findOne\<close> calls the predicate on when it reads the records \<open>xs\<close>:
  those up to and including the first match.\<close>

definition probe :: "('r \<Rightarrow> bool) \<Rightarrow> 'r list \<Rightarrow> 'r list" where
  "probe m xs = take (Suc (length (takeWhile (\<lambda>y. \<not> m y) xs))) xs"

definition findOne_calls :: "env \<Rightarrow> ('r \<Rightarrow> bool) \<Rightarrow> 'r world \<Rightarrow> 'r list option" where
  "findOne_calls c matchFn w =
     (case fst (findOne_scan c matchFn w) of Inl e \<Rightarrow> None | Inr s \<Rightarrow> Some (calls s))"

text \<open>An outcome without failure: the value returned, the files left, and no fault pending.
  \<open>rewrote\<close> is the outcome of a step that has extended the temporary file to \<open>zs\<close>.\<close>

definition yields :: "(error + 'a) \<times> 'r world \<Rightarrow> 'a \<Rightarrow> (path \<rightharpoonup> 'r list) \<Rightarrow> bool" where
  "yields out s F = (fst out = Inr s \<and> files (snd out) = F \<and> faults (snd out) = [])"

definition rewrote :: "path \<Rightarrow> 'r list \<Rightarrow> 'a \<Rightarrow> (error + 'a) \<times> 'r world \<Rightarrow> 'r world \<Rightarrow> bool" where
  "rewrote tmp zs s out w =
     (fst out = Inr s \<and> files (snd out) = (files w)(tmp \<mapsto> zs) \<and> faults (snd out) = [])"


text \<open>A record is JSON-compatible when it can be serialised and its line parses to it.\<close>

definition roundtrips :: "'r json \<Rightarrow> 'r \<Rightarrow> bool" where
  "roundtrips j r = (case stringify j r of None \<Rightarrow> False | Some line \<Rightarrow> parse j line = r)"

text \<open>The batches that \<open>findOne\<close> reads of the batches \<open>bs\<close>: those up to and including the
  first one that holds a match.\<close>

definition batches_read :: "('r \<Rightarrow> bool) \<Rightarrow> 'r list list \<Rightarrow> 'r list list" where
  "batches_read m bs = take (Suc (length (takeWhile (\<lambda>b. find m b = None) bs))) bs"

text \<open>A store and worlds on which the statements are run.\<close>

definition users :: env where
  "users = \<lparr>dirPath = ''db'', entityName = ''users'', tempPath = ''tmp/t.jsonl'', batching = [2]\<rparr>"

definition world_of :: "nat list \<Rightarrow> bool list \<Rightarrow> nat world" where
  "world_of xs fs = \<lparr>files = [filePath users \<mapsto> xs], faults = fs, trace = []\<rparr>"

definition is_one :: "nat \<Rightarrow> bool" where
  "is_one x = (x = 1)"

definition bump :: "nat \<Rightarrow> nat" where
  "bump x = x + 10"

definition always :: "'r \<Rightarrow> bool" where
  "always x = True"

text \<open>Five JavaScript objects and what \<open>JSON.stringify\<close> and \<open>JSON.parse\<close> do on them:
  \<open>{ok: true}\<close>, \<open>{ok: false}\<close>, \<open>{ok: undefined}\<close> (the field is dropped from the
  line), \<open>{}\<close>, and an object that refers to itself (\<open>JSON.stringify\<close> throws).\<close>

datatype demo = OkTrue | OkFalse | OkUndefined | Empty | Cyclic

fun demo_stringify :: "demo \<Rightarrow> string option" where
  \<open>demo_stringify OkTrue = Some ''{"ok":true}''\<close>
| \<open>demo_stringify OkFalse = Some ''{"ok":false}''\<close>
| \<open>demo_stringify OkUndefined = Some ''{}''\<close>
| \<open>demo_stringify Empty = Some ''{}''\<close>
| \<open>demo_stringify Cyclic = None\<close>

definition demo_parse :: "string \<Rightarrow> demo" where
  \<open>demo_parse line =
     (if line = ''{"ok":true}'' then OkTrue
      else if line = ''{"ok":false}'' then OkFalse
      else Empty)\<close>

definition demo_json :: "demo json" where
  "demo_json = \<lparr>stringify = demo_stringify, parse = demo_parse\<rparr>"

definition no_files :: "'r world" where
  "no_files = \<lparr>files = Map.empty, faults = [], trace = []\<rparr>"

section \<open>Basic facts about the collaborators\<close>

lemma tick_ok: "faults w = [] \<Longrightarrow> tick e w = (False, w\<lparr>trace := trace w @ [e]\<rparr>)"
  by (simp add: tick_def)

lemma concat_batches: "concat (batches ns xs) = xs"
  by (induction ns xs rule: batches.induct) simp_all

lemma isSingleJson_iff: "isSingleJson d = (\<exists>r. d = JsObject r)"
  by (cases d) (simp_all add: isSingleJson_def)

lemma isArray_iff: "isArray d = (\<exists>xs. d = JsArray xs)"
  by (cases d) simp_all

section \<open>add\<close>

lemma stringify_all_not_invalid: "stringify_all j xs \<noteq> Inl InvalidInput"
  by (induction xs) (auto split: option.splits sum.splits)

lemma add_items_not_invalid: "fst (add_items j c xs m w) \<noteq> Inl InvalidInput"
  using stringify_all_not_invalid [of j xs]
  by (auto simp: add_items_def appendText_def append_records_def
      split: prod.splits sum.splits bool.splits)

text \<open>
  Claim C9. \<open>add\<close> raises \<open>InvalidInput\<close> exactly when \<open>data\<close> is neither an array nor
  a single object, and then the world (files, and the I/O calls issued) is as before.
  An empty array is no error: \<open>add([], mutateDb)\<close> returns the empty sequence and
  leaves the world as it is, so no write is issued and no file is created, whatever
  \<open>mutateDb\<close> is.
\<close>

theorem add_InvalidInput_iff:
  "(fst (add j c d m w) = Inl InvalidInput) = (\<not> isArray d \<and> \<not> isSingleJson d)
   \<and> (add j c d m w = (Inl InvalidInput, w)) = (\<not> isArray d \<and> \<not> isSingleJson d)
   \<and> isArray d = (\<exists>xs. d = JsArray xs)
   \<and> isSingleJson d = (\<exists>r. d = JsObject r)
   \<and> add j c (JsArray []) m w = (Inr [], w)"
proof -
  have a: "(fst (add j c d m w) = Inl InvalidInput) = (\<not> isArray d \<and> \<not> isSingleJson d)"
    by (cases d) (simp_all add: add_def isSingleJson_def add_items_not_invalid)
  have b: "(add j c d m w = (Inl InvalidInput, w)) = (\<not> isArray d \<and> \<not> isSingleJson d)"
  proof (cases "\<not> isArray d \<and> \<not> isSingleJson d")
    case True
    then show ?thesis by (simp add: add_def)
  next
    case False
    with a have "fst (add j c d m w) \<noteq> Inl InvalidInput" by simp
    then have "add j c d m w \<noteq> (Inl InvalidInput, w)" by auto
    with False show ?thesis by simp
  qed
  have e: "add j c (JsArray []) m w = (Inr [], w)" by (simp add: add_def)
  from a b e isArray_iff isSingleJson_iff show ?thesis by blast
qed

lemma append_records_ok:
  assumes "faults w = []" and "files w p = Some ys"
  shows "append_records p xs w =
    (Inr (), w\<lparr>files := (files w)(p \<mapsto> ys @ xs), trace := trace w @ [EvAppend p xs]\<rparr>)"
  using assms by (simp add: append_records_def tick_ok content_def)

lemma rename_ok:
  assumes "faults w = []" and "files w src = Some ys"
  shows "rename src dst w =
    (Inr (), w\<lparr>files := ((files w)(src := None))(dst \<mapsto> ys), trace := trace w @ [EvRename src dst]\<rparr>)"
  using assms by (simp add: rename_def tick_ok)

lemma createTemp_simps:
  "faults (createTemp c w) = faults w"
  "files (createTemp c w) (tempPath c) = Some []"
  "tempPath c \<noteq> p \<Longrightarrow> content (createTemp c w) p = content w p"
  by (simp_all add: createTemp_def content_def)

lemma users_paths: "filePath users = ''db/users.jsonl''" "tempPath users = ''tmp/t.jsonl''" "batching users = [2]"
  by (simp_all add: users_def filePath_def)

lemma world_of_simps:
  "faults (world_of xs fs) = fs"
  "trace (world_of xs fs) = []"
  "files (world_of xs fs) = [filePath users \<mapsto> xs]"
  "content (world_of xs fs) (filePath users) = xs"
  "content (world_of xs fs) ''db/users.jsonl'' = xs"
  "content (world_of xs fs\<lparr>trace := tr\<rparr>) (filePath users) = xs"
  by (simp_all add: world_of_def content_def users_paths)

section \<open>Scans that run to completion\<close>

lemma find_visit_eq: "find_visit m b acc = (False, acc @ filter m b)"
  by (induction b arbitrary: acc) simp_all

lemma update_collect_eq: "update_collect m u b acc = (False, acc @ map u (filter m b))"
  by (induction b arbitrary: acc) simp_all

lemma delete_collect_eq: "delete_collect m b acc = (False, acc @ filter (\<lambda>x. \<not> m x) b)"
  by (induction b arbitrary: acc) simp_all

lemma update_map_eq:
  "update_map m u b acc = (map (\<lambda>x. if m x then u x else x) b, acc @ map u (filter m b))"
  by (induction b arbitrary: acc) simp_all

lemma delete_filter_eq:
  "delete_filter m b acc = (filter (\<lambda>x. \<not> m x) b, acc @ filter (\<lambda>x. \<not> m x) b)"
  by (induction b arbitrary: acc) simp_all

lemma scan_sync_collect:
  assumes "faults w = []" and "\<And>b s. f b s = (False, s @ g b)"
  shows "scan (sync f) p bs s w =
    (Inr (s @ concat (map g bs)), w\<lparr>trace := trace w @ replicate (length bs) (EvRead p)\<rparr>)"
  using assms(1)
proof (induction bs arbitrary: s w)
  case Nil
  then show ?case by simp
next
  case (Cons b bs)
  let ?w1 = "w\<lparr>trace := trace w @ [EvRead p]\<rparr>"
  have f1: "faults ?w1 = []" using Cons.prems by simp
  have "scan (sync f) p (b # bs) s w = scan (sync f) p bs (s @ g b) ?w1"
    using Cons.prems by (simp add: tick_ok sync_def assms(2))
  also have "\<dots> = (Inr ((s @ g b) @ concat (map g bs)),
      ?w1\<lparr>trace := trace ?w1 @ replicate (length bs) (EvRead p)\<rparr>)"
    by (rule Cons.IH [OF f1])
  finally show ?case by (simp add: replicate_append_same)
qed

lemma find_ok:
  assumes "faults w = []"
  shows "find_op c m w = (Inr (filter m (content w (filePath c))),
     w\<lparr>trace := trace w @ replicate (length (batches (batching c) (content w (filePath c)))) (EvRead (filePath c))\<rparr>)"
proof -
  have "concat (map (filter m) (batches (batching c) (content w (filePath c)))) = filter m (content w (filePath c))"
    by (simp add: filter_concat [symmetric] concat_batches)
  with scan_sync_collect [OF assms, of "find_visit m" "filter m"] show ?thesis
    by (simp add: find_op_def read_def find_visit_eq)
qed

section \<open>The rewrite into the temporary file\<close>

lemma scan_rewrite:
  assumes v: "\<And>b s w ys. faults w = [] \<Longrightarrow> files w tmp = Some ys \<Longrightarrow>
      rewrote tmp (ys @ h b) (False, s @ k b) (v b s w) w"
    and "faults w = []" and "files w tmp = Some ys"
  shows "rewrote tmp (ys @ concat (map h bs)) (s @ concat (map k bs)) (scan v p bs s w) w"
  using assms(2,3)
proof (induction bs arbitrary: s w ys)
  case Nil
  then show ?case by (simp add: rewrote_def map_upd_triv)
next
  case (Cons b bs)
  let ?w1 = "w\<lparr>trace := trace w @ [EvRead p]\<rparr>"
  have f1: "faults ?w1 = []" and t1: "files ?w1 tmp = Some ys" using Cons.prems by simp_all
  obtain r w2 where vb: "v b s ?w1 = (r, w2)" by (cases "v b s ?w1")
  with v [OF f1 t1, of b s] have r: "r = Inr (False, s @ k b)"
    and f2: "faults w2 = []" and fl2: "files w2 = (files w)(tmp \<mapsto> ys @ h b)"
    by (simp_all add: rewrote_def)
  have t2: "files w2 tmp = Some (ys @ h b)" using fl2 by simp
  have step: "scan v p (b # bs) s w = scan v p bs (s @ k b) w2"
    using Cons.prems vb r by (simp add: tick_ok)
  from Cons.IH [OF f2 t2, of "s @ k b"] step fl2 show ?case
    by (simp add: rewrote_def)
qed

lemma update_visit_ok:
  assumes "faults w = []" and "files w tmp = Some ys"
  shows "rewrote tmp (ys @ map (\<lambda>x. if m x then u x else x) b) (False, s @ map u (filter m b))
     (update_visit tmp m u b s w) w"
  using assms by (simp add: rewrote_def update_visit_def update_map_eq append_records_ok)

lemma delete_visit_always_ok:
  assumes "faults w = []" and "files w tmp = Some ys"
  shows "rewrote tmp (ys @ filter (\<lambda>x. \<not> m x) b) (False, s @ filter (\<lambda>x. \<not> m x) b)
     (delete_visit_always tmp m b s w) w"
  using assms by (simp add: rewrote_def delete_visit_always_def delete_filter_eq append_records_ok)

lemma delete_visit_ok:
  assumes "faults w = []" and "files w tmp = Some ys"
  shows "rewrote tmp (ys @ filter (\<lambda>x. \<not> m x) b) (False, s @ filter (\<lambda>x. \<not> m x) b)
     (delete_visit tmp m b s w) w"
  using assms
  by (simp add: rewrote_def delete_visit_def delete_filter_eq append_records_ok map_upd_triv)

lemma update_rewrite_ok:
  assumes "faults w = []" and "files w tmp = Some ys"
  shows "rewrote tmp (ys @ map (\<lambda>x. if m x then u x else x) (content w (filePath c)))
     (map u (filter m (content w (filePath c)))) (update_rewrite c m u tmp w) w"
proof -
  let ?bs = "batches (batching c) (content w (filePath c))"
  have "rewrote tmp (ys @ concat (map (map (\<lambda>x. if m x then u x else x)) ?bs))
     ([] @ concat (map (\<lambda>b. map u (filter m b)) ?bs))
     (scan (update_visit tmp m u) (filePath c) ?bs [] w) w"
    by (rule scan_rewrite [OF update_visit_ok assms])
  moreover have "concat (map (map (\<lambda>x. if m x then u x else x)) ?bs)
      = map (\<lambda>x. if m x then u x else x) (content w (filePath c))"
    by (simp add: map_concat [symmetric] concat_batches)
  moreover have "concat (map (\<lambda>b. map u (filter m b)) ?bs) = map u (filter m (content w (filePath c)))"
    using arg_cong [OF concat_batches, of "\<lambda>xs. map u (filter m xs)" "batching c" "content w (filePath c)"]
    by (simp add: map_concat filter_concat comp_def)
  ultimately show ?thesis by (simp add: update_rewrite_def read_def)
qed

lemma delete_scan_ok:
  assumes v: "\<And>b s w ys. faults w = [] \<Longrightarrow> files w tmp = Some ys \<Longrightarrow>
      rewrote tmp (ys @ filter (\<lambda>x. \<not> m x) b) (False, s @ filter (\<lambda>x. \<not> m x) b) (v b s w) w"
   and "faults w = []" and "files w tmp = Some ys"
  shows "rewrote tmp (ys @ filter (\<lambda>x. \<not> m x) (content w (filePath c)))
     (filter (\<lambda>x. \<not> m x) (content w (filePath c))) (read c (filePath c) v [] w) w"
proof -
  let ?bs = "batches (batching c) (content w (filePath c))"
  have "rewrote tmp (ys @ concat (map (filter (\<lambda>x. \<not> m x)) ?bs))
     ([] @ concat (map (filter (\<lambda>x. \<not> m x)) ?bs))
     (scan v (filePath c) ?bs [] w) w"
    by (rule scan_rewrite [OF v assms(2,3)])
  moreover have "concat (map (filter (\<lambda>x. \<not> m x)) ?bs) = filter (\<lambda>x. \<not> m x) (content w (filePath c))"
    by (simp add: filter_concat [symmetric] concat_batches)
  ultimately show ?thesis by (simp add: read_def)
qed

lemma then_rename_ok:
  assumes rw: "rewrote tmp zs s out w" and out: "out = (r, w1)"
  shows "r = Inr s \<and> rename tmp dst w1 =
     (Inr (), w1\<lparr>files := ((files w)(tmp := None))(dst \<mapsto> zs), trace := trace w1 @ [EvRename tmp dst]\<rparr>)
     \<and> faults w1 = []"
proof -
  from rw out have r: "r = Inr s" and f: "faults w1 = []" and fl: "files w1 = (files w)(tmp \<mapsto> zs)"
    by (simp_all add: rewrote_def)
  have "files w1 tmp = Some zs" using fl by simp
  from rename_ok [OF f this, of dst] r f fl show ?thesis by simp
qed

lemma update_task_ok:
  assumes "faults w = []" and "files w tmp = Some []"
  shows "yields (update_task c m u tmp w) (map u (filter m (content w (filePath c))))
     (((files w)(tmp := None))(filePath c \<mapsto> map (\<lambda>x. if m x then u x else x) (content w (filePath c))))"
proof -
  obtain r w1 where out: "update_rewrite c m u tmp w = (r, w1)" by (cases "update_rewrite c m u tmp w")
  from then_rename_ok [OF update_rewrite_ok [OF assms, of m u c] out, of "filePath c"] out
  show ?thesis by (simp add: update_task_def yields_def)
qed

lemma delete_task_ok:
  assumes "faults w = []" and "files w tmp = Some []"
  shows "yields (delete_task c m tmp w) (filter (\<lambda>x. \<not> m x) (content w (filePath c)))
     (((files w)(tmp := None))(filePath c \<mapsto> filter (\<lambda>x. \<not> m x) (content w (filePath c))))"
proof -
  obtain r w1 where out: "delete_rewrite c m tmp w = (r, w1)" by (cases "delete_rewrite c m tmp w")
  have "rewrote tmp ([] @ filter (\<lambda>x. \<not> m x) (content w (filePath c)))
     (filter (\<lambda>x. \<not> m x) (content w (filePath c))) (delete_rewrite c m tmp w) w"
    unfolding delete_rewrite_def by (rule delete_scan_ok [OF delete_visit_ok assms])
  from then_rename_ok [OF this out, of "filePath c"] out
  show ?thesis by (simp add: delete_task_def yields_def)
qed

lemma delete_task_always_ok:
  assumes "faults w = []" and "files w tmp = Some []"
  shows "yields (delete_task_always c m tmp w) (filter (\<lambda>x. \<not> m x) (content w (filePath c)))
     (((files w)(tmp := None))(filePath c \<mapsto> filter (\<lambda>x. \<not> m x) (content w (filePath c))))"
proof -
  let ?out = "read c (filePath c) (delete_visit_always tmp m) [] w"
  obtain r w1 where out: "?out = (r, w1)" by (cases ?out)
  have "rewrote tmp ([] @ filter (\<lambda>x. \<not> m x) (content w (filePath c)))
     (filter (\<lambda>x. \<not> m x) (content w (filePath c))) ?out w"
    by (rule delete_scan_ok [OF delete_visit_always_ok assms])
  from then_rename_ok [OF this out, of "filePath c"] out
  show ?thesis by (simp add: delete_task_always_def yields_def)
qed

lemma temporaryFileTask_ok:
  assumes "yields (task (tempPath c) (createTemp c w)) s F"
  shows "yields (temporaryFileTask c task w) s (F(tempPath c := None))"
  using assms by (cases "task (tempPath c) (createTemp c w)")
    (simp add: yields_def temporaryFileTask_def removeTemp_def)

lemma update_durable_ok:
  assumes "faults w = []" and "tempPath c \<noteq> filePath c"
  shows "yields (update c m u True w) (map u (filter m (content w (filePath c))))
     (((files w)(tempPath c := None))(filePath c \<mapsto> map (\<lambda>x. if m x then u x else x) (content w (filePath c))))"
proof -
  have "yields (update_task c m u (tempPath c) (createTemp c w))
     (map u (filter m (content (createTemp c w) (filePath c))))
     (((files (createTemp c w))(tempPath c := None))(filePath c \<mapsto>
         map (\<lambda>x. if m x then u x else x) (content (createTemp c w) (filePath c))))"
    by (rule update_task_ok) (simp_all add: createTemp_simps assms)
  from temporaryFileTask_ok [of "update_task c m u" c w, OF this] assms(2) show ?thesis
    by (simp add: update_def createTemp_simps) (simp add: createTemp_def fun_upd_twist)
qed

section \<open>A failing rewrite\<close>











section \<open>findOne\<close>

lemma findOne_visit_eq:
  "findOne_visit m b s =
     (case find m b of
        None \<Rightarrow> (canEnd s, s\<lparr>calls := calls s @ b\<rparr>)
      | Some x \<Rightarrow> (True, s\<lparr>found := Some x, canEnd := True,
                       calls := calls s @ takeWhile (\<lambda>y. \<not> m y) b @ [x]\<rparr>))"
  by (induction b arbitrary: s) (simp_all split: option.splits)

lemma find_append: "find m (xs @ ys) = (case find m xs of None \<Rightarrow> find m ys | Some x \<Rightarrow> Some x)"
  by (induction xs) simp_all

lemma find_None_takeWhile: "find m xs = None \<Longrightarrow> takeWhile (\<lambda>y. \<not> m y) xs = xs"
  by (induction xs) (simp_all split: if_splits)

lemma find_Some_take:
  "find m xs = Some x \<Longrightarrow> take (Suc (length (takeWhile (\<lambda>y. \<not> m y) xs))) xs = takeWhile (\<lambda>y. \<not> m y) xs @ [x]"
  by (induction xs) (simp_all split: if_splits)

lemma probe_append:
  "probe m (xs @ ys) = (case find m xs of None \<Rightarrow> xs @ probe m ys | Some x \<Rightarrow> probe m xs)"
  unfolding probe_def
  by (induction xs) (simp_all split: option.splits)

lemma scan_findOne:
  assumes "faults w = []" and "canEnd s = False"
  shows "\<exists>tr. scan (sync (findOne_visit m)) p bs s w =
    (Inr (case find m (concat bs) of
            None \<Rightarrow> s\<lparr>calls := calls s @ concat bs\<rparr>
          | Some x \<Rightarrow> s\<lparr>found := Some x, canEnd := True, calls := calls s @ probe m (concat bs)\<rparr>),
     w\<lparr>trace := tr\<rparr>)"
  using assms
proof (induction bs arbitrary: s w)
  case Nil
  have "w = w\<lparr>trace := trace w\<rparr>" by simp
  then show ?case by (auto intro: exI [of _ "trace w"])
next
  case (Cons b bs)
  let ?w1 = "w\<lparr>trace := trace w @ [EvRead p]\<rparr>"
  have f1: "faults ?w1 = []" using Cons.prems by simp
  show ?case
  proof (cases "find m b")
    case None
    let ?s1 = "s\<lparr>calls := calls s @ b\<rparr>"
    have c1: "canEnd ?s1 = False" using Cons.prems by simp
    have step: "scan (sync (findOne_visit m)) p (b # bs) s w = scan (sync (findOne_visit m)) p bs ?s1 ?w1"
      using Cons.prems None by (simp add: tick_ok sync_def findOne_visit_eq)
    from Cons.IH [OF f1 c1] obtain tr where
      "scan (sync (findOne_visit m)) p bs ?s1 ?w1 =
        (Inr (case find m (concat bs) of
            None \<Rightarrow> ?s1\<lparr>calls := calls ?s1 @ concat bs\<rparr>
          | Some x \<Rightarrow> ?s1\<lparr>found := Some x, canEnd := True, calls := calls ?s1 @ probe m (concat bs)\<rparr>),
         ?w1\<lparr>trace := tr\<rparr>)" by blast
    with step None show ?thesis
      by (auto simp: find_append probe_append split: option.splits)
  next
    case (Some x)
    have "scan (sync (findOne_visit m)) p (b # bs) s w =
       (Inr (s\<lparr>found := Some x, canEnd := True, calls := calls s @ takeWhile (\<lambda>y. \<not> m y) b @ [x]\<rparr>), ?w1)"
      using Cons.prems Some by (simp add: tick_ok sync_def findOne_visit_eq)
    moreover have "probe m b = takeWhile (\<lambda>y. \<not> m y) b @ [x]"
      using Some by (simp add: probe_def find_Some_take)
    ultimately show ?thesis using Some
      by (auto simp: find_append probe_append)
  qed
qed

text \<open>
  Claim C4. When no I/O call fails, \<open>findOne\<close> returns the first record of the file, in
  file order, that satisfies the predicate, and the not-found indicator (no error) when
  no record satisfies it; the result is the same for every way of grouping the records
  into batches.
\<close>

theorem findOne_first_match:
  assumes "faults w = []"
  shows "fst (findOne c m w) = Inr (find m (content w (filePath c)))
       \<and> fst (findOne (c\<lparr>batching := ns\<rparr>) m w) = fst (findOne c m w)
       \<and> ((\<forall>x \<in> set (content w (filePath c)). \<not> m x) \<longrightarrow> fst (findOne c m w) = Inr None)"
proof -
  have g: "\<And>c :: env. fst (findOne c m w) = Inr (find m (content w (filePath c)))"
  proof -
    fix c :: env
    from scan_findOne [OF assms, of "\<lparr>found = None, canEnd = False, calls = []\<rparr>" m "filePath c"
        "batches (batching c) (content w (filePath c))"]
    show "fst (findOne c m w) = Inr (find m (content w (filePath c)))"
      by (auto simp: findOne_def findOne_scan_def read_def concat_batches split: option.splits)
  qed
  have "filePath (c\<lparr>batching := ns\<rparr>) = filePath c" by (simp add: filePath_def)
  with g [of c] g [of "c\<lparr>batching := ns\<rparr>"] show ?thesis by (simp add: find_None_iff)
qed

theorem findOne_first_match_witness:
  "faults (world_of [3, 1, 2, 1] []) = []
   \<and> fst (findOne users is_one (world_of [3, 1, 2, 1] [])) = Inr (Some 1)
   \<and> fst (findOne (users\<lparr>batching := [1, 1]\<rparr>) is_one (world_of [3, 1, 2, 1] [])) = Inr (Some 1)"
proof -
  have f: "faults (world_of [3, 1, 2, 1] []) = []" by (simp add: world_of_simps)
  from findOne_first_match [OF f, of users is_one "[1, 1]"] f show ?thesis
    by (simp add: world_of_simps is_one_def)
qed

lemma batches_read_Cons:
  "batches_read m (b # bs) = (if find m b = None then b # batches_read m bs else [b])"
  by (simp add: batches_read_def)

lemma scan_findOne_trace:
  assumes "faults w = []" and "canEnd s = False"
  shows "trace (snd (scan (sync (findOne_visit m)) p bs s w))
       = trace w @ map (\<lambda>b. EvRead p) (batches_read m bs)"
  using assms
proof (induction bs arbitrary: s w)
  case Nil
  then show ?case by (simp add: batches_read_def)
next
  case (Cons b bs)
  let ?w1 = "w\<lparr>trace := trace w @ [EvRead p]\<rparr>"
  have f1: "faults ?w1 = []" using Cons.prems by simp
  show ?case
  proof (cases "find m b")
    case None
    let ?s1 = "s\<lparr>calls := calls s @ b\<rparr>"
    have c1: "canEnd ?s1 = False" using Cons.prems by simp
    have "scan (sync (findOne_visit m)) p (b # bs) s w = scan (sync (findOne_visit m)) p bs ?s1 ?w1"
      using Cons.prems None by (simp add: tick_ok sync_def findOne_visit_eq)
    with Cons.IH [OF f1 c1] None show ?thesis by (simp add: batches_read_Cons)
  next
    case (Some x)
    have "snd (scan (sync (findOne_visit m)) p (b # bs) s w) = ?w1"
      using Cons.prems Some by (simp add: tick_ok sync_def findOne_visit_eq)
    with Some show ?thesis by (simp add: batches_read_Cons)
  qed
qed

lemma findOne_visit_result: "fst (findOne_visit m b s) = (find m b \<noteq> None \<or> canEnd s)"
  by (simp add: findOne_visit_eq split: option.splits)

text \<open>
  Claim C3, as amended. When no I/O call fails, \<open>findOne\<close> calls the predicate on the
  records of the file in file order up to and including the first match, and on no
  record after it, whatever the batches are: the visitor returns at the match, so the
  rest of the batch that contains the match is not evaluated. The visitor returns true
  on the batch that holds the match, so the batches read are those up to and including
  that batch, and no further batch is read.
\<close>

theorem findOne_stops_at_first_match:
  assumes "faults w = []"
  shows "findOne_calls c m w
       = Some (take (Suc (length (takeWhile (\<lambda>y. \<not> m y) (content w (filePath c)))))
                (content w (filePath c)))
       \<and> issued w (snd (findOne c m w))
           = map (\<lambda>b. EvRead (filePath c))
               (batches_read m (batches (batching c) (content w (filePath c))))
       \<and> fst (findOne_visit m b \<lparr>found = None, canEnd = False, calls = []\<rparr>) = (find m b \<noteq> None)"
proof -
  let ?s0 = "\<lparr>found = None, canEnd = False, calls = []\<rparr> :: 'a findOne_state"
  let ?bs = "batches (batching c) (content w (filePath c))"
  from scan_findOne [OF assms, of ?s0 m "filePath c" ?bs]
  have calls: "findOne_calls c m w
       = Some (take (Suc (length (takeWhile (\<lambda>y. \<not> m y) (content w (filePath c)))))
                (content w (filePath c)))"
    by (auto simp: findOne_calls_def findOne_scan_def read_def concat_batches probe_def
        find_None_takeWhile split: option.splits)
  have "snd (findOne c m w) = snd (findOne_scan c m w)"
    by (simp add: findOne_def split: prod.splits sum.splits)
  then have "trace (snd (findOne c m w)) = trace w @ map (\<lambda>b. EvRead (filePath c)) (batches_read m ?bs)"
    using scan_findOne_trace [OF assms, of ?s0 m "filePath c" ?bs]
    by (simp add: findOne_scan_def read_def)
  then have reads: "issued w (snd (findOne c m w))
           = map (\<lambda>b. EvRead (filePath c)) (batches_read m ?bs)"
    by (simp add: issued_def)
  have "fst (findOne_visit m b ?s0) = (find m b \<noteq> None)"
    by (simp add: findOne_visit_result)
  with calls reads show ?thesis by simp
qed

theorem findOne_stops_at_first_match_witness:
  "faults (world_of [3, 1, 2, 1, 5, 6] []) = []
   \<and> batches (batching users) (content (world_of [3, 1, 2, 1, 5, 6] []) (filePath users))
       = [[3, 1], [2, 1, 5, 6]]
   \<and> findOne_calls users is_one (world_of [3, 1, 2, 1, 5, 6] []) = Some [3, 1]
   \<and> issued (world_of [3, 1, 2, 1, 5, 6] []) (snd (findOne users is_one (world_of [3, 1, 2, 1, 5, 6] [])))
       = [EvRead (filePath users)]
   \<and> fst (findOne_visit is_one [3, 1] \<lparr>found = None, canEnd = False, calls = []\<rparr>) = True"
proof -
  have f: "faults (world_of [3, 1, 2, 1, 5, 6] []) = []" by (simp add: world_of_simps)
  from findOne_stops_at_first_match [OF f, of users is_one "[3, 1]"] f show ?thesis
    by (simp add: world_of_simps is_one_def batches_read_def users_paths)
qed

text \<open>The claim as stated (every record of the batch that contains the match is evaluated)
  fails on the file \<open>[1, 2, 3]\<close> read in the batches \<open>[1, 2]\<close> and \<open>[3]\<close>: the predicate
  matches \<open>1\<close> and is never called on \<open>2\<close>.\<close>

theorem findOne_batch_granular_counterexample:
  "batches (batching users) (content (world_of [1, 2, 3] []) (filePath users)) = [[1, 2], [3]]
   \<and> findOne_calls users is_one (world_of [1, 2, 3] []) = Some [1]"
  by (simp add: findOne_calls_def findOne_scan_def read_def world_of_simps users_paths
      tick_def sync_def is_one_def)

section \<open>Outcomes of update and delete\<close>

lemma yields_fst: "yields out s F \<Longrightarrow> fst out = Inr s"
  and yields_files: "yields out s F \<Longrightarrow> files (snd out) = F"
  and yields_faults: "yields out s F \<Longrightarrow> faults (snd out) = []"
  by (simp_all add: yields_def)

lemma delete_durable_ok:
  assumes "faults w = []" and "tempPath c \<noteq> filePath c"
  shows "yields (delete c m True w) (filter (\<lambda>x. \<not> m x) (content w (filePath c)))
     (((files w)(tempPath c := None))(filePath c \<mapsto> filter (\<lambda>x. \<not> m x) (content w (filePath c))))"
proof -
  have "yields (delete_task c m (tempPath c) (createTemp c w))
     (filter (\<lambda>x. \<not> m x) (content (createTemp c w) (filePath c)))
     (((files (createTemp c w))(tempPath c := None))(filePath c \<mapsto>
         filter (\<lambda>x. \<not> m x) (content (createTemp c w) (filePath c))))"
    by (rule delete_task_ok) (simp_all add: createTemp_simps assms)
  from temporaryFileTask_ok [of "delete_task c m" c w, OF this] assms(2) show ?thesis
    by (simp add: delete_def createTemp_simps) (simp add: createTemp_def fun_upd_twist)
qed

lemma tick_files: "files (snd (tick e w)) = files w"
  by (cases "faults w") (simp_all add: tick_def)

lemma scan_sync_files: "files (snd (scan (sync f) p bs s w)) = files w"
proof (induction bs arbitrary: s w)
  case Nil
  then show ?case by simp
next
  case (Cons b bs)
  obtain fl w1 where t: "tick (EvRead p) w = (fl, w1)" by (cases "tick (EvRead p) w")
  with tick_files [of "EvRead p" w] have f1: "files w1 = files w" by simp
  obtain stop s' where fb: "f b s = (stop, s')" by (cases "f b s")
  from Cons.IH [of s' w1] t f1 fb show ?case
    by (cases fl; cases stop) (simp_all add: sync_def)
qed

lemma update_transient_ok:
  assumes "faults w = []"
  shows "yields (update c m u False w) (map u (filter m (content w (filePath c)))) (files w)"
proof -
  have "concat (map (\<lambda>b. map u (filter m b)) (batches (batching c) (content w (filePath c))))
      = map u (filter m (content w (filePath c)))"
    using arg_cong [OF concat_batches, of "\<lambda>xs. map u (filter m xs)" "batching c" "content w (filePath c)"]
    by (simp add: map_concat filter_concat comp_def)
  with scan_sync_collect [OF assms, of "update_collect m u" "\<lambda>b. map u (filter m b)"] assms
  show ?thesis by (simp add: update_def read_def update_collect_eq yields_def)
qed

lemma delete_transient_ok:
  assumes "faults w = []"
  shows "yields (delete c m False w) (filter (\<lambda>x. \<not> m x) (content w (filePath c))) (files w)"
proof -
  have "concat (map (filter (\<lambda>x. \<not> m x)) (batches (batching c) (content w (filePath c))))
      = filter (\<lambda>x. \<not> m x) (content w (filePath c))"
    by (simp add: filter_concat [symmetric] concat_batches)
  with scan_sync_collect [OF assms, of "delete_collect m" "filter (\<lambda>x. \<not> m x)"] assms
  show ?thesis by (simp add: delete_def read_def delete_collect_eq yields_def)
qed

lemma find_op_yields:
  assumes "faults w = []"
  shows "yields (find_op c m w) (filter m (content w (filePath c))) (files w)"
  using assms by (simp add: find_ok yields_def)

lemma count_ok:
  assumes "faults w = []"
  shows "yields (count c w) (length (content w (filePath c))) (files w)"
  using assms by (simp add: count_def jsonl_count_def tick_ok yields_def content_def)

lemma content_cong: "files w' = files w \<Longrightarrow> content w' p = content w p"
  by (simp add: content_def)

text \<open>
  Claim C2. Durable \<open>update\<close>, when no I/O call fails and the temporary file is at
  another path than the backing file: the backing file afterwards holds as many records
  as before, in the same positions; the record at each position is \<open>updateFn\<close> of the
  old one when that satisfies the predicate, and the old one otherwise. The call returns
  the transformed records in file order.
\<close>

theorem update_durable_in_place:
  assumes "faults w = []" and "tempPath c \<noteq> filePath c"
  shows "fst (update c m u True w) = Inr (map u (filter m (content w (filePath c))))
       \<and> content (snd (update c m u True w)) (filePath c)
           = map (\<lambda>x. if m x then u x else x) (content w (filePath c))
       \<and> length (content (snd (update c m u True w)) (filePath c)) = length (content w (filePath c))
       \<and> (\<forall>i < length (content w (filePath c)).
            content (snd (update c m u True w)) (filePath c) ! i
              = (if m (content w (filePath c) ! i) then u (content w (filePath c) ! i)
                 else content w (filePath c) ! i))"
proof -
  note y = update_durable_ok [OF assms, of m u]
  have c: "content (snd (update c m u True w)) (filePath c)
           = map (\<lambda>x. if m x then u x else x) (content w (filePath c))"
    using yields_files [OF y] assms(2) by (simp add: content_def)
  from yields_fst [OF y] c show ?thesis by simp
qed

theorem update_durable_in_place_witness:
  "faults (world_of [1, 2, 3] []) = [] \<and> tempPath users \<noteq> filePath users
   \<and> fst (update users is_one bump True (world_of [1, 2, 3] [])) = Inr [11]
   \<and> content (snd (update users is_one bump True (world_of [1, 2, 3] []))) (filePath users) = [11, 2, 3]"
proof -
  have f: "faults (world_of [1, 2, 3] []) = []" by (simp add: world_of_simps)
  have ne: "tempPath users \<noteq> filePath users" by (simp add: users_paths)
  from update_durable_in_place [OF f ne, of is_one bump] f ne show ?thesis
    by (simp add: world_of_simps is_one_def bump_def)
qed

text \<open>
  Claim C5. When no I/O call fails, \<open>delete\<close> returns the records that do not satisfy
  the predicate, in file order, in transient mode and (the temporary file being at
  another path than the backing file) in durable mode; in transient mode the files are
  as before.
\<close>

theorem delete_returns_kept:
  assumes "faults w = []"
  shows "fst (delete c m False w) = Inr (filter (\<lambda>x. \<not> m x) (content w (filePath c)))
       \<and> files (snd (delete c m False w)) = files w
       \<and> (tempPath c \<noteq> filePath c \<longrightarrow>
            fst (delete c m True w) = Inr (filter (\<lambda>x. \<not> m x) (content w (filePath c))))"
  using delete_transient_ok [OF assms, of c m] delete_durable_ok [OF assms, of c m]
  by (simp add: yields_def)

theorem delete_returns_kept_witness:
  "faults (world_of [1, 2, 3] []) = [] \<and> tempPath users \<noteq> filePath users
   \<and> fst (delete users is_one False (world_of [1, 2, 3] [])) = Inr [2, 3]
   \<and> files (snd (delete users is_one False (world_of [1, 2, 3] []))) (filePath users) = Some [1, 2, 3]
   \<and> fst (delete users is_one True (world_of [1, 2, 3] [])) = Inr [2, 3]"
proof -
  have f: "faults (world_of [1, 2, 3] []) = []" by (simp add: world_of_simps)
  have ne: "tempPath users \<noteq> filePath users" by (simp add: users_paths)
  from delete_returns_kept [OF f, of users is_one] f ne show ?thesis
    by (simp add: world_of_simps is_one_def)
qed

text \<open>
  Claim C7. Transient \<open>update\<close> and \<open>delete\<close> leave every file as it was, whether or
  not an I/O call fails; when none fails, \<open>count\<close> and \<open>find\<close> with any predicate
  return after the call what they return before it.
\<close>

theorem transient_leaves_store:
  "files (snd (update c m u False w)) = files w
   \<and> files (snd (delete c m False w)) = files w
   \<and> (faults w = [] \<longrightarrow>
        fst (count c (snd (update c m u False w))) = fst (count c w)
      \<and> fst (find_op c q (snd (update c m u False w))) = fst (find_op c q w)
      \<and> fst (count c (snd (delete c m False w))) = fst (count c w)
      \<and> fst (find_op c q (snd (delete c m False w))) = fst (find_op c q w))"
proof (intro conjI impI)
  show "files (snd (update c m u False w)) = files w"
    by (simp add: update_def read_def scan_sync_files)
  show "files (snd (delete c m False w)) = files w"
    by (simp add: delete_def read_def scan_sync_files)
next
  assume f: "faults w = []"
  note yu = update_transient_ok [OF f, of c m u]
  note yd = delete_transient_ok [OF f, of c m]
  have cu: "content (snd (update c m u False w)) (filePath c) = content w (filePath c)"
    by (rule content_cong) (rule yields_files [OF yu])
  have cd: "content (snd (delete c m False w)) (filePath c) = content w (filePath c)"
    by (rule content_cong) (rule yields_files [OF yd])
  show "fst (count c (snd (update c m u False w))) = fst (count c w)"
    using yields_fst [OF count_ok [OF yields_faults [OF yu], of c]] yields_fst [OF count_ok [OF f, of c]] cu
    by simp
  show "fst (find_op c q (snd (update c m u False w))) = fst (find_op c q w)"
    using yields_fst [OF find_op_yields [OF yields_faults [OF yu], of c q]]
      yields_fst [OF find_op_yields [OF f, of c q]] cu by simp
  show "fst (count c (snd (delete c m False w))) = fst (count c w)"
    using yields_fst [OF count_ok [OF yields_faults [OF yd], of c]] yields_fst [OF count_ok [OF f, of c]] cd
    by simp
  show "fst (find_op c q (snd (delete c m False w))) = fst (find_op c q w)"
    using yields_fst [OF find_op_yields [OF yields_faults [OF yd], of c q]]
      yields_fst [OF find_op_yields [OF f, of c q]] cd by simp
qed

theorem transient_leaves_store_witness:
  "faults (world_of [1, 2, 3] []) = []
   \<and> fst (count users (snd (update users is_one bump False (world_of [1, 2, 3] [])))) = Inr 3
   \<and> fst (find_op users always (snd (update users is_one bump False (world_of [1, 2, 3] [])))) = Inr [1, 2, 3]
   \<and> fst (count users (snd (delete users is_one False (world_of [1, 2, 3] [])))) = Inr 3
   \<and> fst (find_op users always (snd (delete users is_one False (world_of [1, 2, 3] [])))) = Inr [1, 2, 3]"
proof -
  have f: "faults (world_of [1, 2, 3] []) = []" by (simp add: world_of_simps)
  have c: "fst (count users (world_of [1, 2, 3] [])) = Inr 3"
    by (simp add: count_def jsonl_count_def tick_def world_of_simps)
  have a: "fst (find_op users always (world_of [1, 2, 3] [])) = Inr [1, 2, 3]"
    by (simp add: find_ok world_of_simps always_def)
  from transient_leaves_store [of users is_one bump "world_of [1, 2, 3] []" always] f c a
  show ?thesis by simp
qed

section \<open>The skipped append of durable delete\<close>

lemma delete_always_ok:
  assumes "faults w = []"
  shows "yields (delete_always c m w) (filter (\<lambda>x. \<not> m x) (content (createTemp c w) (filePath c)))
     ((((files (createTemp c w))(tempPath c := None))(filePath c \<mapsto>
         filter (\<lambda>x. \<not> m x) (content (createTemp c w) (filePath c))))(tempPath c := None))"
proof -
  have "yields (delete_task_always c m (tempPath c) (createTemp c w))
     (filter (\<lambda>x. \<not> m x) (content (createTemp c w) (filePath c)))
     (((files (createTemp c w))(tempPath c := None))(filePath c \<mapsto>
         filter (\<lambda>x. \<not> m x) (content (createTemp c w) (filePath c))))"
    by (rule delete_task_always_ok) (simp_all add: createTemp_simps assms)
  from temporaryFileTask_ok [of "delete_task_always c m" c w, OF this] show ?thesis
    by (simp add: delete_always_def)
qed

lemma delete_skipping_ok:
  assumes "faults w = []"
  shows "yields (delete c m True w) (filter (\<lambda>x. \<not> m x) (content (createTemp c w) (filePath c)))
     ((((files (createTemp c w))(tempPath c := None))(filePath c \<mapsto>
         filter (\<lambda>x. \<not> m x) (content (createTemp c w) (filePath c))))(tempPath c := None))"
proof -
  have "yields (delete_task c m (tempPath c) (createTemp c w))
     (filter (\<lambda>x. \<not> m x) (content (createTemp c w) (filePath c)))
     (((files (createTemp c w))(tempPath c := None))(filePath c \<mapsto>
         filter (\<lambda>x. \<not> m x) (content (createTemp c w) (filePath c))))"
    by (rule delete_task_ok) (simp_all add: createTemp_simps assms)
  from temporaryFileTask_ok [of "delete_task c m" c w, OF this] show ?thesis
    by (simp add: delete_def)
qed

text \<open>
  Claim C8. When no I/O call fails, durable \<open>delete\<close>, which skips the append of a
  batch with no kept record, and the variant that appends every processed batch have the
  same outcome: the same returned value and the same files (and no fault pending in
  either).
\<close>

theorem delete_skip_is_equivalent:
  assumes "faults w = []"
  shows "fst (delete c m True w) = fst (delete_always c m w)
       \<and> files (snd (delete c m True w)) = files (snd (delete_always c m w))
       \<and> faults (snd (delete c m True w)) = faults (snd (delete_always c m w))"
  using delete_skipping_ok [OF assms, of c m] delete_always_ok [OF assms, of c m]
  by (simp add: yields_def)

theorem delete_skip_is_equivalent_witness:
  "faults (world_of [1, 1, 2] []) = []
   \<and> batches (batching users) (content (world_of [1, 1, 2] []) (filePath users)) = [[1, 1], [2]]
   \<and> fst (delete users is_one True (world_of [1, 1, 2] [])) = Inr [2]
   \<and> fst (delete_always users is_one (world_of [1, 1, 2] [])) = Inr [2]
   \<and> files (snd (delete_always users is_one (world_of [1, 1, 2] []))) (filePath users) = Some [2]"
proof -
  have f: "faults (world_of [1, 1, 2] []) = []" by (simp add: world_of_simps)
  have ne: "tempPath users \<noteq> filePath users" by (simp add: users_paths)
  have d: "fst (delete users is_one True (world_of [1, 1, 2] [])) = Inr [2]"
    and fl: "files (snd (delete users is_one True (world_of [1, 1, 2] []))) (filePath users) = Some [2]"
    using delete_durable_ok [OF f ne, of is_one]
    by (simp_all add: yields_def world_of_simps is_one_def)
  from delete_skip_is_equivalent [OF f, of users is_one] f d fl show ?thesis
    by (simp add: world_of_simps users_paths)
qed

lemma scan_delete_all:
  assumes "faults w = []" and "\<forall>b \<in> set bs. \<forall>x \<in> set b. m x"
  shows "scan (delete_visit tmp m) p bs kept w =
     (Inr kept, w\<lparr>trace := trace w @ replicate (length bs) (EvRead p)\<rparr>)"
  using assms
proof (induction bs arbitrary: w)
  case Nil
  then show ?case by simp
next
  case (Cons b bs)
  let ?w1 = "w\<lparr>trace := trace w @ [EvRead p]\<rparr>"
  have f1: "faults ?w1 = []" using Cons.prems by simp
  have e: "filter (\<lambda>x. \<not> m x) b = []" using Cons.prems(2) by (simp add: filter_empty_conv)
  have "scan (delete_visit tmp m) p (b # bs) kept w = scan (delete_visit tmp m) p bs kept ?w1"
    using Cons.prems(1) e by (simp add: tick_ok delete_visit_def delete_filter_eq)
  also have "\<dots> = (Inr kept, ?w1\<lparr>trace := trace ?w1 @ replicate (length bs) (EvRead p)\<rparr>)"
    using Cons.prems(2) by (intro Cons.IH [OF f1]) simp
  finally show ?case by (simp add: replicate_append_same)
qed

text \<open>
  Claim C10. Durable \<open>delete\<close> on a file of which every record satisfies the predicate,
  when no I/O call fails and the temporary file is at another path than the backing
  file: the I/O calls issued are one read per batch and then the rename of the temporary
  path onto the backing file's path, so no append to the temporary file is among them;
  the call returns the empty kept set, and the backing file is left empty.
\<close>

theorem delete_all_issues_no_append:
  assumes "faults w = []" and "tempPath c \<noteq> filePath c"
    and "\<forall>x \<in> set (content w (filePath c)). m x"
  shows "fst (delete c m True w) = Inr []
       \<and> issued w (snd (delete c m True w))
           = replicate (length (batches (batching c) (content w (filePath c)))) (EvRead (filePath c))
             @ [EvRename (tempPath c) (filePath c)]
       \<and> (\<forall>e \<in> set (issued w (snd (delete c m True w))). \<not> is_append_to (tempPath c) e)
       \<and> files (snd (delete c m True w)) (filePath c) = Some []"
proof -
  let ?xs = "content w (filePath c)"
  let ?bs = "batches (batching c) ?xs"
  let ?w0 = "createTemp c w"
  let ?w1 = "?w0\<lparr>trace := trace ?w0 @ replicate (length ?bs) (EvRead (filePath c))\<rparr>"
  have f0: "faults ?w0 = []" using assms(1) by (simp add: createTemp_simps)
  have c0: "content ?w0 (filePath c) = ?xs" using assms(2) by (simp add: createTemp_simps)
  have "set (concat ?bs) = set ?xs" by (simp only: concat_batches)
  with assms(3) have all: "\<forall>b \<in> set ?bs. \<forall>x \<in> set b. m x" by auto
  have rw: "delete_rewrite c m (tempPath c) ?w0 = (Inr [], ?w1)"
    using scan_delete_all [OF f0 all, of "tempPath c" "filePath c" "[]"]
    by (simp add: delete_rewrite_def read_def c0)
  have f1: "faults ?w1 = []" and t1: "files ?w1 (tempPath c) = Some []"
    using assms(1) by (simp_all add: createTemp_def)
  have out: "delete c m True w =
     (Inr [], removeTemp c (?w1\<lparr>files := ((files ?w1)(tempPath c := None))(filePath c \<mapsto> []),
        trace := trace ?w1 @ [EvRename (tempPath c) (filePath c)]\<rparr>))"
    using rw rename_ok [OF f1 t1, of "filePath c"]
    by (simp add: delete_def temporaryFileTask_def delete_task_def)
  have i: "issued w (snd (delete c m True w))
       = replicate (length ?bs) (EvRead (filePath c)) @ [EvRename (tempPath c) (filePath c)]"
    by (simp add: out issued_def removeTemp_def createTemp_def)
  have fl: "files (snd (delete c m True w)) (filePath c) = Some []"
    using assms(2) by (simp add: out removeTemp_def)
  from out i fl show ?thesis by auto
qed

theorem delete_all_issues_no_append_witness:
  "faults (world_of [1, 1, 1] []) = [] \<and> tempPath users \<noteq> filePath users
   \<and> content (world_of [1, 1, 1] []) (filePath users) = [1, 1, 1] \<and> is_one 1
   \<and> fst (delete users is_one True (world_of [1, 1, 1] [])) = Inr []
   \<and> issued (world_of [1, 1, 1] []) (snd (delete users is_one True (world_of [1, 1, 1] [])))
       = [EvRead (filePath users), EvRead (filePath users), EvRename (tempPath users) (filePath users)]
   \<and> files (snd (delete users is_one True (world_of [1, 1, 1] []))) (filePath users) = Some []"
proof -
  have f: "faults (world_of [1, 1, 1] []) = []" by (simp add: world_of_simps)
  have ne: "tempPath users \<noteq> filePath users" by (simp add: users_paths)
  have a: "\<forall>x \<in> set (content (world_of [1, 1, 1] []) (filePath users)). is_one x"
    by (simp add: world_of_simps is_one_def)
  have o: "is_one 1" by (simp add: is_one_def)
  from delete_all_issues_no_append [OF f ne a] f ne o show ?thesis
    by (simp add: world_of_simps (4)) (simp add: users_paths)
qed

section \<open>Round trip of add and find\<close>

lemma stringify_all_roundtrips:
  assumes "\<forall>r \<in> set R. roundtrips j r"
  shows "\<exists>ls. stringify_all j R = Inr ls \<and> map (parse j) ls = R"
  using assms
proof (induction R)
  case Nil
  then show ?case by simp
next
  case (Cons r R)
  then obtain ls where ls: "stringify_all j R = Inr ls" "map (parse j) ls = R" by auto
  from Cons.prems obtain l where l: "stringify j r = Some l" "parse j l = r"
    by (auto simp: roundtrips_def split: option.splits)
  from ls l show ?case by simp
qed

text \<open>What \<open>add\<close> leaves in the file is what the lines parse to, and \<open>add\<close> returns the
  records it was given.\<close>

lemma add_writes_parsed:
  assumes "faults w = []" and "R \<noteq> []" and "stringify_all j R = Inr ls"
  shows "add j c (JsArray R) True w =
    (Inr R, w\<lparr>files := (files w)(filePath c \<mapsto> content w (filePath c) @ map (parse j) ls),
               trace := trace w @ [EvAppend (filePath c) (map (parse j) ls)]\<rparr>)"
  using assms
  by (simp add: add_def add_items_def appendText_def append_records_def tick_ok content_def)

lemma add_throws_TypeError:
  assumes "R \<noteq> []" and "stringify_all j R = Inl e"
  shows "add j c (JsArray R) True w = (Inl e, w)"
  using assms by (simp add: add_def add_items_def)

text \<open>Outside the JSON-compatible records the round trip fails: the record \<open>{ok: undefined}\<close>
  comes back as \<open>{}\<close>, and a record that refers to itself makes \<open>add\<close> throw.\<close>

lemma add_then_find_lossy:
  "fst (find_op users always (snd (add demo_json users (JsArray [OkUndefined]) True no_files)))
     = Inr [Empty]
   \<and> add demo_json users (JsArray [OkTrue, Cyclic]) True no_files = (Inl TypeError, no_files)"
proof -
  let ?w1 = "no_files\<lparr>files := (files no_files)(filePath users \<mapsto>
                 content no_files (filePath users) @ map (parse demo_json) [''{}'']),
               trace := trace no_files @ [EvAppend (filePath users) (map (parse demo_json) [''{}''])]\<rparr>"
  have f: "faults (no_files :: demo world) = []" by (simp add: no_files_def)
  have "add demo_json users (JsArray [OkUndefined]) True no_files = (Inr [OkUndefined], ?w1)"
    by (rule add_writes_parsed [OF f]) (simp_all add: demo_json_def)
  moreover have "faults ?w1 = []" by (simp add: no_files_def)
  moreover have "content ?w1 (filePath users) = [Empty]"
    by (simp add: content_def no_files_def demo_json_def demo_parse_def)
  ultimately have "fst (find_op users always (snd (add demo_json users (JsArray [OkUndefined]) True no_files)))
     = Inr [Empty]"
    by (simp add: find_ok always_def)
  moreover have "add demo_json users (JsArray [OkTrue, Cyclic]) True no_files = (Inl TypeError, no_files)"
    by (rule add_throws_TypeError) (simp_all add: demo_json_def)
  ultimately show ?thesis by simp
qed

text \<open>
  Claim C6. When no I/O call fails and the records of \<open>R\<close> are JSON-compatible (each can
  be serialised, and its line parses to it), \<open>add(R, true)\<close> returns \<open>R\<close>, and \<open>find\<close>
  with the always-true predicate then returns the records the store held before followed
  by \<open>R\<close>, in order; on a store that held none, exactly \<open>R\<close>.
\<close>

theorem add_then_find:
  assumes "faults w = []" and "\<forall>r \<in> set R. roundtrips j r"
  shows "fst (add j c (JsArray R) True w) = Inr R
       \<and> fst (find_op c always (snd (add j c (JsArray R) True w))) = Inr (content w (filePath c) @ R)
       \<and> (content w (filePath c) = [] \<longrightarrow>
            fst (find_op c always (snd (add j c (JsArray R) True w))) = Inr R)"
proof -
  have al: "\<And>xs :: 'a list. filter always xs = xs" by (simp add: always_def)
  have main: "fst (add j c (JsArray R) True w) = Inr R
       \<and> fst (find_op c always (snd (add j c (JsArray R) True w))) = Inr (content w (filePath c) @ R)"
  proof (cases "R = []")
    case True
    with assms(1) show ?thesis by (simp add: add_def find_ok al)
  next
    case False
    from stringify_all_roundtrips [OF assms(2)] obtain ls
      where ls: "stringify_all j R = Inr ls" and rt: "map (parse j) ls = R" by blast
    let ?w1 = "w\<lparr>files := (files w)(filePath c \<mapsto> content w (filePath c) @ R),
                 trace := trace w @ [EvAppend (filePath c) R]\<rparr>"
    have a: "add j c (JsArray R) True w = (Inr R, ?w1)"
      using add_writes_parsed [OF assms(1) False ls, of c] rt by simp
    have f1: "faults ?w1 = []" using assms(1) by simp
    have "content ?w1 (filePath c) = content w (filePath c) @ R" by (simp add: content_def)
    with a find_ok [OF f1, of c always] show ?thesis by (simp add: al)
  qed
  then show ?thesis by simp
qed

theorem add_then_find_witness:
  "faults (no_files :: demo world) = []
   \<and> roundtrips demo_json OkTrue \<and> roundtrips demo_json Empty \<and> roundtrips demo_json OkFalse
   \<and> content (no_files :: demo world) (filePath users) = []
   \<and> fst (add demo_json users (JsArray [OkTrue, Empty, OkFalse]) True no_files)
       = Inr [OkTrue, Empty, OkFalse]
   \<and> fst (find_op users always
        (snd (add demo_json users (JsArray [OkTrue, Empty, OkFalse]) True no_files)))
       = Inr [OkTrue, Empty, OkFalse]"
proof -
  have f: "faults (no_files :: demo world) = []" by (simp add: no_files_def)
  have r: "roundtrips demo_json OkTrue" "roundtrips demo_json Empty" "roundtrips demo_json OkFalse"
    by (simp_all add: roundtrips_def demo_json_def demo_parse_def)
  then have a: "\<forall>r \<in> set [OkTrue, Empty, OkFalse]. roundtrips demo_json r" by simp
  have e: "content (no_files :: demo world) (filePath users) = []"
    by (simp add: content_def no_files_def)
  from add_then_find [OF f a, of users] f r e show ?thesis by simp
qed

end
